theory Spec2Isabelle
  imports Main "HOL-Library.Word" "HOL-Library.Multiset"
begin

unbundle bit_operations_syntax

section \<open>Data model\<close>

text \<open>
  \<^verbatim>\<open>type IpAddressRange struct { start *big.Int; end *big.Int; country string }\<close>
  (main.go, lines 118-122). A \<^verbatim>\<open>*big.Int\<close> is an unbounded integer: \<open>int\<close>.
  The field \<^verbatim>\<open>end\<close> is written \<open>end'\<close>, since \<open>end\<close> is a keyword here.
\<close>

record IpAddressRange =
  start :: int
  end' :: int
  country :: string

text \<open>
  \<^verbatim>\<open>type IpAddress struct { IpAddr *string; IpV6 bool }\<close> (lines 161-164) and
  \<^verbatim>\<open>type ApiResponse struct { Ok bool; Country *string; IpAddress }\<close> (lines 180-184).
  The embedded struct is a record extension: its fields are promoted, as in Go.
  A nil pointer is \<open>None\<close>.
\<close>

record IpAddress =
  IpAddr :: "string option"
  IpV6 :: bool

record ApiResponse = IpAddress +
  Ok :: bool
  Country :: "string option"

text \<open>A run-time panic of the Go program: an index out of the bounds of a slice.\<close>

datatype fault = IndexOutOfRange

text \<open>
  Go's \<^verbatim>\<open>xs[i]\<close>: panics when \<open>i\<close> is not below \<open>len(xs)\<close>. Indices are
  natural numbers here; every index the program computes is guarded against
  being negative (\<^verbatim>\<open>idx > 0 && arr[idx-1]\<close>) or is a constant.
\<close>

definition index :: "'a list \<Rightarrow> nat \<Rightarrow> fault + 'a" where
  "index xs i = (if i < length xs then Inr (xs ! i) else Inl IndexOutOfRange)"

section \<open>The resolver\<close>

text \<open>
  \<^verbatim>\<open>sort.Search(n, f)\<close> of the Go standard library, as the handler calls it
  (main.go, line 215):
  \<^verbatim>\<open>
  i, j := 0, n
  for i < j {
      h := int(uint(i+j) >> 1)
      if !f(h) { i = h + 1 } else { j = h }
  }
  return i
  \<close>
  \<open>n\<close> is the length of a slice, so \<open>i + j\<close> read as unsigned does not wrap and
  \<open>h\<close> is \<open>(i + j) div 2\<close>. The predicate reads the slice, so it may panic.
\<close>

function Search_loop :: "(nat \<Rightarrow> fault + bool) \<Rightarrow> nat \<Rightarrow> nat \<Rightarrow> fault + nat" where
  "Search_loop f i j =
     (if i < j then
        (case f ((i + j) div 2) of
           Inl e \<Rightarrow> Inl e
         | Inr b \<Rightarrow>
             if \<not> b then Search_loop f ((i + j) div 2 + 1) j
             else Search_loop f i ((i + j) div 2))
      else Inr i)"
  by pat_completeness auto
termination
  by (relation "measure (\<lambda>(f, i, j). j - i)") auto

definition Search :: "nat \<Rightarrow> (nat \<Rightarrow> fault + bool) \<Rightarrow> fault + nat" where
  "Search n f = Search_loop f 0 n"

text \<open>
  The predicate of the search (line 216):
  \<^verbatim>\<open>func(i int) bool { return arr[i].start.Cmp(ipNum) > 0 }\<close>
\<close>

definition start_above :: "IpAddressRange list \<Rightarrow> int \<Rightarrow> nat \<Rightarrow> fault + bool" where
  "start_above arr ipNum i =
     (case index arr i of Inl e \<Rightarrow> Inl e | Inr r \<Rightarrow> Inr (start r > ipNum))"

text \<open>
  Lines 215-222 of the handler: the search, then
  \<^verbatim>\<open>if idx > 0 && arr[idx-1].end.Cmp(ipNum) >= 0 && ipNum.Sign() != 0\<close>,
  evaluated left to right. \<open>Some r\<close> is the branch that answers with the country
  of \<open>r = arr[idx-1]\<close>; \<open>None\<close> falls through to the negative answer of line 225.
\<close>

definition resolve :: "IpAddressRange list \<Rightarrow> int \<Rightarrow> fault + IpAddressRange option" where
  "resolve arr ipNum =
     (case Search (length arr) (start_above arr ipNum) of
        Inl e \<Rightarrow> Inl e
      | Inr idx \<Rightarrow>
          if idx > 0 then
            (case index arr (idx - 1) of
               Inl e \<Rightarrow> Inl e
             | Inr r \<Rightarrow>
                 if end' r \<ge> ipNum then
                   (if ipNum \<noteq> 0 then Inr (Some r) else Inr None)
                 else Inr None)
          else Inr None)"

section \<open>Address normalisation\<close>

type_synonym byte = "8 word"

text \<open>
  \<^verbatim>\<open>net.ParseIP\<close> returns nil or the 16 bytes of the address (a \<^verbatim>\<open>net.IP\<close>), an
  IPv4 address \<open>a.b.c.d\<close> in its IPv4-mapped form, which the standard library's
  \<^verbatim>\<open>net.IPv4(a, b, c, d)\<close> builds: the twelve bytes of \<^verbatim>\<open>v4InV6Prefix\<close> (ten
  zero bytes, then \<open>ff ff\<close>), then the four octets.
\<close>

definition v4InV6Prefix :: "byte list" where
  "v4InV6Prefix = [0, 0, 0, 0, 0, 0, 0, 0, 0, 0, 0xff, 0xff]"

definition IPv4 :: "byte \<Rightarrow> byte \<Rightarrow> byte \<Rightarrow> byte \<Rightarrow> byte list" where
  "IPv4 a b c d = v4InV6Prefix @ [a, b, c, d]"

text \<open>
  \<^verbatim>\<open>func (ip IP) To4() IP\<close> of the standard library, which the handler calls
  (line 209): a 4-byte slice is returned as it is, a 16-byte slice with the
  IPv4-mapped prefix gives its last four bytes \<^verbatim>\<open>ip[12:16]\<close>, anything else nil.
\<close>

definition isZeros :: "byte list \<Rightarrow> bool" where
  "isZeros p = list_all (\<lambda>b. b = 0) p"

definition To4 :: "byte list \<Rightarrow> byte list option" where
  "To4 ip =
     (if length ip = 4 then Some ip
      else if length ip = 16 \<and> isZeros (take 10 ip) \<and> ip ! 10 = 0xff \<and> ip ! 11 = 0xff
      then Some (take 4 (drop 12 ip))
      else None)"

text \<open>
  \<^verbatim>\<open>binary.BigEndian.Uint32(b)\<close>:
  \<^verbatim>\<open>_ = b[3]; return uint32(b[3]) | uint32(b[2])<<8 | uint32(b[1])<<16 | uint32(b[0])<<24\<close>
\<close>

definition Uint32 :: "byte list \<Rightarrow> fault + 32 word" where
  "Uint32 b =
     (if length b < 4 then Inl IndexOutOfRange
      else Inr (ucast (b ! 3) OR push_bit 8 (ucast (b ! 2)) OR
                push_bit 16 (ucast (b ! 1)) OR push_bit 24 (ucast (b ! 0))))"

text \<open>
  \<^verbatim>\<open>(*big.Int).SetBytes(buf)\<close> reads \<open>buf\<close> as a big-endian unsigned integer:
  an accumulator shifted by one byte for each byte read.
\<close>

definition SetBytes :: "byte list \<Rightarrow> int" where
  "SetBytes buf = foldl (\<lambda>z b. z * 256 + uint b) 0 buf"

text \<open>
  Lines 207-213 of the handler, for a non-nil \<open>addr\<close>:
  \<^verbatim>\<open>
  ipNum := big.NewInt(0)
  if addr.To4() != nil {
      ipNum = new(big.Int).SetUint64(uint64(binary.BigEndian.Uint32(addr.To4())))
  } else {
      ipNum.SetBytes(addr)
  }
  \<close>
\<close>

definition ipNum_of :: "byte list \<Rightarrow> fault + int" where
  "ipNum_of addr =
     (case To4 addr of
        Some b4 \<Rightarrow>
          (case Uint32 b4 of
             Inl e \<Rightarrow> Inl e
           | Inr w \<Rightarrow> Inr (uint (ucast w :: 64 word)))
      | None \<Rightarrow> Inr (SetBytes addr))"

section \<open>The request handler\<close>

text \<open>
  The validator tag \<^verbatim>\<open>required\<close> on a string: the string is not empty. The tags
  \<^verbatim>\<open>ip4_addr\<close> and \<^verbatim>\<open>ip6_addr\<close> belong to the validator package and
  \<^verbatim>\<open>net.ParseIP\<close> to the standard library; the handler is modelled for every
  behaviour of the three, which are its parameters.
\<close>

definition required :: "string \<Rightarrow> bool" where
  "required s = (s \<noteq> [])"

text \<open>\<^verbatim>\<open>parseIpAddress\<close> (lines 166-178): nil is \<open>None\<close>.\<close>

definition parseIpAddress ::
    "(string \<Rightarrow> bool) \<Rightarrow> (string \<Rightarrow> bool) \<Rightarrow> string \<Rightarrow> IpAddress option" where
  "parseIpAddress ip4_addr ip6_addr rawIpAddr =
     (if required rawIpAddr \<and> ip4_addr rawIpAddr
      then Some \<lparr>IpAddr = Some rawIpAddr, IpV6 = False\<rparr>
      else if required rawIpAddr \<and> ip6_addr rawIpAddr
      then Some \<lparr>IpAddr = Some rawIpAddr, IpV6 = True\<rparr>
      else None)"

text \<open>\<^verbatim>\<open>ApiResponse{Ok: false}\<close> (line 225): every other field has its zero value.\<close>

definition notFound :: ApiResponse where
  "notFound = \<lparr>IpAddr = None, IpV6 = False, Ok = False, Country = None\<rparr>"

text \<open>
  The handler of \<^verbatim>\<open>GET /getIpInfo\<close> (lines 202-226) on the query parameter
  \<open>raw\<close>, against the index \<open>arr\<close> built at start-up. \<open>Inl\<close> is a panic.
\<close>

definition getIpInfo ::
    "(string \<Rightarrow> bool) \<Rightarrow> (string \<Rightarrow> bool) \<Rightarrow> (string \<Rightarrow> byte list option) \<Rightarrow>
     IpAddressRange list \<Rightarrow> string \<Rightarrow> fault + ApiResponse" where
  "getIpInfo ip4_addr ip6_addr ParseIP arr raw =
     (case parseIpAddress ip4_addr ip6_addr raw of
        None \<Rightarrow> Inr notFound
      | Some ipAddr \<Rightarrow>
          (case IpAddr ipAddr of
             None \<Rightarrow> Inr notFound
           | Some s \<Rightarrow>
               (case ParseIP s of
                  None \<Rightarrow> Inr notFound
                | Some addr \<Rightarrow>
                    (case ipNum_of addr of
                       Inl e \<Rightarrow> Inl e
                     | Inr ipNum \<Rightarrow>
                         (case resolve arr ipNum of
                            Inl e \<Rightarrow> Inl e
                          | Inr None \<Rightarrow> Inr notFound
                          | Inr (Some r) \<Rightarrow>
                              Inr \<lparr>IpAddr = IpAddr ipAddr, IpV6 = IpV6 ipAddr,
                                   Ok = True, Country = Some (country r)\<rparr>)))))"

section \<open>Building the index\<close>

text \<open>
  \<^verbatim>\<open>new(big.Int).SetString(s, 10)\<close>: an optional sign, then one or more decimal
  digits, and nothing else; the whole string must be consumed.
\<close>

definition is_digit :: "char \<Rightarrow> bool" where
  "is_digit c = (of_char (CHR ''0'') \<le> (of_char c :: nat) \<and> (of_char c :: nat) \<le> of_char (CHR ''9''))"

definition digits :: "string \<Rightarrow> int option" where
  "digits s =
     (if s \<noteq> [] \<and> list_all is_digit s
      then Some (foldl (\<lambda>n c. n * 10 + (of_char c - of_char (CHR ''0''))) 0 s)
      else None)"

definition SetString :: "string \<Rightarrow> int option" where
  "SetString s =
     (case s of
        [] \<Rightarrow> None
      | c # cs \<Rightarrow>
          if c = CHR ''-'' then map_option uminus (digits cs)
          else if c = CHR ''+'' then digits cs
          else digits s)"

text \<open>
  A CSV file as \<^verbatim>\<open>csv.Reader\<close> sees it: its lines, each one split into its
  fields or malformed (a bare quote, say). \<^verbatim>\<open>csv.NewReader\<close> leaves
  \<^verbatim>\<open>FieldsPerRecord\<close> at 0, so \<^verbatim>\<open>Read\<close> sets it from the first record and
  reports every later record of another length as \<^verbatim>\<open>ErrFieldCount\<close>; at the
  end of the input it reports \<^verbatim>\<open>io.EOF\<close>.
\<close>

datatype csv_line = Fields "string list" | Malformed

datatype csv_error = EOF | ErrFieldCount | ErrSyntax

record Reader =
  FieldsPerRecord :: nat
  input :: "csv_line list"

definition NewReader :: "csv_line list \<Rightarrow> Reader" where
  "NewReader ls = \<lparr>FieldsPerRecord = 0, input = ls\<rparr>"

definition Read :: "Reader \<Rightarrow> (csv_error + string list) \<times> Reader" where
  "Read r =
     (case input r of
        [] \<Rightarrow> (Inl EOF, r)
      | Malformed # rest \<Rightarrow> (Inl ErrSyntax, r\<lparr>input := rest\<rparr>)
      | Fields dst # rest \<Rightarrow>
          if FieldsPerRecord r > 0 then
            (if length dst \<noteq> FieldsPerRecord r
             then (Inl ErrFieldCount, r\<lparr>input := rest\<rparr>)
             else (Inr dst, r\<lparr>input := rest\<rparr>))
          else (Inr dst, r\<lparr>FieldsPerRecord := length dst, input := rest\<rparr>))"

text \<open>
  The body of the read loop after a successful \<^verbatim>\<open>Read\<close> (lines 142-150):
  \<open>Inr None\<close> is \<^verbatim>\<open>continue\<close>, \<open>Inr (Some x)\<close> the range appended,
  \<open>Inl\<close> the panic of an index out of range.
\<close>

definition parse_record :: "string list \<Rightarrow> fault + IpAddressRange option" where
  "parse_record rec =
     (case index rec 0 of
        Inl e \<Rightarrow> Inl e
      | Inr f0 \<Rightarrow>
          (case SetString f0 of
             None \<Rightarrow> Inr None
           | Some s \<Rightarrow>
               (case index rec 1 of
                  Inl e \<Rightarrow> Inl e
                | Inr f1 \<Rightarrow>
                    (case SetString f1 of
                       None \<Rightarrow> Inr None
                     | Some e \<Rightarrow>
                         (case index rec 2 of
                            Inl x \<Rightarrow> Inl x
                          | Inr c \<Rightarrow> Inr (Some \<lparr>start = s, end' = e, country = c\<rparr>))))))"

text \<open>
  The loop \<^verbatim>\<open>for { rec, err := r.Read(); if err != nil { break }; ... }\<close>
  (lines 137-151), on the reader and the slice collected so far.
\<close>

function read_loop :: "Reader \<Rightarrow> IpAddressRange list \<Rightarrow> fault + IpAddressRange list" where
  "read_loop r arr =
     (case Read r of
        (Inl err, r') \<Rightarrow> Inr arr
      | (Inr rec, r') \<Rightarrow>
          (case parse_record rec of
             Inl e \<Rightarrow> Inl e
           | Inr None \<Rightarrow> read_loop r' arr
           | Inr (Some x) \<Rightarrow> read_loop r' (arr @ [x])))"
  by pat_completeness auto
termination
  by (relation "measure (\<lambda>(r, arr). length (input r))")
    (auto simp: Read_def split: list.splits csv_line.splits if_splits)

text \<open>
  The loop over the files of \<^verbatim>\<open>loadCsv\<close> (lines 128-152). A file that cannot be
  opened (\<open>None\<close>) is passed over with \<^verbatim>\<open>continue\<close>.
\<close>

fun load_files :: "csv_line list option list \<Rightarrow> IpAddressRange list \<Rightarrow> fault + IpAddressRange list" where
  "load_files [] arr = Inr arr"
| "load_files (None # fs) arr = load_files fs arr"
| "load_files (Some ls # fs) arr =
     (case read_loop (NewReader ls) arr of
        Inl e \<Rightarrow> Inl e
      | Inr arr' \<Rightarrow> load_files fs arr')"

text \<open>
  The comparison handed to \<^verbatim>\<open>sort.Slice\<close> (line 155):
  \<^verbatim>\<open>arr[i].start.Cmp(arr[j].start) < 0\<close>.
\<close>

definition less_start :: "IpAddressRange \<Rightarrow> IpAddressRange \<Rightarrow> bool" where
  "less_start a b = (start a < start b)"

text \<open>
  \<^verbatim>\<open>loadCsv\<close> (lines 125-159). \<^verbatim>\<open>sort.Slice\<close> belongs to the standard library
  and is a parameter; what its documentation promises is \<open>sorts\<close> below.
\<close>

definition loadCsv ::
    "(IpAddressRange list \<Rightarrow> (IpAddressRange \<Rightarrow> IpAddressRange \<Rightarrow> bool) \<Rightarrow> IpAddressRange list) \<Rightarrow>
     csv_line list option list \<Rightarrow> fault + IpAddressRange list" where
  "loadCsv sort_Slice files =
     (case load_files files [] of
        Inl e \<Rightarrow> Inl e
      | Inr arr \<Rightarrow> Inr (sort_Slice arr less_start))"

text \<open>
  The older \<^verbatim>\<open>downloadCsv\<close> (part_000, lines 23-58) runs the same read loop
  over the bodies of two HTTP responses; a failed request (\<open>None\<close>) returns
  what has been collected. Its caller sorts the result (lines 94-98).
\<close>

fun download_urls :: "csv_line list option list \<Rightarrow> IpAddressRange list \<Rightarrow> fault + IpAddressRange list" where
  "download_urls [] arr = Inr arr"
| "download_urls (None # us) arr = Inr arr"
| "download_urls (Some ls # us) arr =
     (case read_loop (NewReader ls) arr of
        Inl e \<Rightarrow> Inl e
      | Inr arr' \<Rightarrow> download_urls us arr')"

definition downloadCsv :: "csv_line list option list \<Rightarrow> fault + IpAddressRange list" where
  "downloadCsv urls = download_urls urls []"


section \<open>Reference definitions and sample data\<close>

text \<open>
  The value of a byte string read as a big-endian unsigned integer, by the
  positional rule: the first byte weighs most.
\<close>

fun big_endian :: "byte list \<Rightarrow> int" where
  "big_endian [] = 0"
| "big_endian (b # bs) = uint b * 256 ^ length bs + big_endian bs"

text \<open>
  A sorting function that \<open>sorts\<close> accepts and that is not stable: insertion
  sort, each element put before the elements it is not greater than, so that
  elements with equal keys come out in the reverse of their input order.
\<close>

fun insert_before :: "('a \<Rightarrow> 'a \<Rightarrow> bool) \<Rightarrow> 'a \<Rightarrow> 'a list \<Rightarrow> 'a list" where
  "insert_before lt x [] = [x]"
| "insert_before lt x (y # ys) = (if lt y x then y # insert_before lt x ys else x # y # ys)"

definition tie_reversing_sort :: "'a list \<Rightarrow> ('a \<Rightarrow> 'a \<Rightarrow> bool) \<Rightarrow> 'a list" where
  "tie_reversing_sort xs lt = foldl (\<lambda>acc x. insert_before lt x acc) [] xs"

text \<open>Sample indexes: two ranges with a gap, one range alone, the networks
  \<open>1.2.0.0/24\<close> and \<open>1.2.3.0/24\<close>, a range that starts at 0, and a dataset
  with overlapping, duplicated and reversed ranges.\<close>

definition two_ranges :: "IpAddressRange list" where
  "two_ranges =
     [\<lparr>start = 0, end' = 99, country = ''A''\<rparr>, \<lparr>start = 200, end' = 299, country = ''B''\<rparr>]"

definition one_range :: "IpAddressRange list" where
  "one_range = [\<lparr>start = 100, end' = 200, country = ''US''\<rparr>]"

definition net_1_2 :: "IpAddressRange list" where
  "net_1_2 =
     [\<lparr>start = 16908288, end' = 16908543, country = ''AU''\<rparr>,
      \<lparr>start = 16909056, end' = 16909311, country = ''US''\<rparr>]"

definition from_zero :: "IpAddressRange list" where
  "from_zero = [\<lparr>start = 0, end' = 255, country = ''ZZ''\<rparr>]"

definition overlapping :: "IpAddressRange list" where
  "overlapping =
     [\<lparr>start = 10, end' = 50, country = ''A''\<rparr>,
      \<lparr>start = 20, end' = 30, country = ''B''\<rparr>,
      \<lparr>start = 20, end' = 30, country = ''B''\<rparr>,
      \<lparr>start = 40, end' = 5, country = ''C''\<rparr>]"

text \<open>
  Sample addresses: the 16 bytes of \<open>::ffff:102:304\<close> (that is
  \<open>::ffff:1.2.3.4\<close>) and of \<open>2001:db8::1\<close>. A sample of the three library
  functions on a handful of strings: the parser as a table, and the two
  validator tags as the validator package decides them, by parsing and asking
  \<^verbatim>\<open>To4\<close>.
\<close>

definition mapped_1234 :: "byte list" where
  "mapped_1234 = [0, 0, 0, 0, 0, 0, 0, 0, 0, 0, 0xff, 0xff, 1, 2, 3, 4]"

definition doc_prefix_1 :: "byte list" where
  "doc_prefix_1 = [0x20, 0x01, 0x0d, 0xb8, 0, 0, 0, 0, 0, 0, 0, 0, 0, 0, 0, 1]"

definition sample_ParseIP :: "string \<Rightarrow> byte list option" where
  "sample_ParseIP = map_of
     [(''0.0.0.0'', IPv4 0 0 0 0),
      (''1.2.3.4'', IPv4 1 2 3 4),
      (''2001:db8::1'', doc_prefix_1),
      (''::ffff:102:304'', mapped_1234)]"

definition sample_ip4_addr :: "string \<Rightarrow> bool" where
  "sample_ip4_addr s = (case sample_ParseIP s of None \<Rightarrow> False | Some ip \<Rightarrow> To4 ip \<noteq> None)"

definition sample_ip6_addr :: "string \<Rightarrow> bool" where
  "sample_ip6_addr s = (case sample_ParseIP s of None \<Rightarrow> False | Some ip \<Rightarrow> To4 ip = None)"

text \<open>Sample files: a row whose first field is no number before a good row; a
  row of two fields after a row of three; two rows with the same start.\<close>

definition bad_then_good :: "csv_line list" where
  "bad_then_good = [Fields [''abc'', ''5'', ''XX''], Fields [''1'', ''2'', ''US'']]"

definition broken_file :: "csv_line list" where
  "broken_file =
     [Fields [''1'', ''2'', ''A''], Fields [''3'', ''4''], Fields [''5'', ''6'', ''B'']]"


section \<open>The binary search\<close>

declare Search_loop.simps [simp del]

text \<open>
  What the loop keeps, for any predicate at all: the result lies between the
  bounds, the predicate is false just below it and true at it.
\<close>

lemma Search_loop_bounds:
  "Search_loop f i j = Inr k \<Longrightarrow> i \<le> j \<Longrightarrow>
     i \<le> k \<and> k \<le> j \<and> (i < k \<longrightarrow> f (k - 1) = Inr False) \<and> (k < j \<longrightarrow> f k = Inr True)"
proof (induction f i j rule: Search_loop.induct)
  case (1 f i j)
  let ?h = "(i + j) div 2"
  show ?case
  proof (cases "i < j")
    case False
    with "1.prems" show ?thesis by (simp add: Search_loop.simps [of f i j])
  next
    case True
    then have h: "i \<le> ?h" "?h < j" by auto
    from "1.prems"(1) True obtain b where b: "f ?h = Inr b"
      by (auto simp: Search_loop.simps [of f i j] split: sum.splits)
    show ?thesis
    proof (cases b)
      case True
      with b \<open>i < j\<close> "1.prems"(1) have "Search_loop f i ?h = Inr k"
        by (simp add: Search_loop.simps [of f i j])
      from "1.IH"(2) [OF \<open>i < j\<close> b _ this] True h
      have "i \<le> k \<and> k \<le> ?h \<and> (i < k \<longrightarrow> f (k - 1) = Inr False) \<and> (k < ?h \<longrightarrow> f k = Inr True)"
        by simp
      with h b True show ?thesis by (cases "k = ?h") auto
    next
      case False
      with b \<open>i < j\<close> "1.prems"(1) have "Search_loop f (?h + 1) j = Inr k"
        by (simp add: Search_loop.simps [of f i j])
      from "1.IH"(1) [OF \<open>i < j\<close> b _ this] False h
      have "?h + 1 \<le> k \<and> k \<le> j \<and> (?h + 1 < k \<longrightarrow> f (k - 1) = Inr False) \<and> (k < j \<longrightarrow> f k = Inr True)"
        by simp
      with h b False show ?thesis by (cases "k = ?h + 1") auto
    qed
  qed
qed

text \<open>The loop returns whenever the predicate does on the indices it may probe.\<close>

lemma Search_loop_returns:
  "\<forall>h<j. \<exists>b. f h = Inr b \<Longrightarrow> \<exists>k. Search_loop f i j = Inr k"
proof (induction f i j rule: Search_loop.induct)
  case (1 f i j)
  let ?h = "(i + j) div 2"
  show ?case
  proof (cases "i < j")
    case False
    then show ?thesis by (simp add: Search_loop.simps [of f i j])
  next
    case True
    then have "?h < j" by auto
    with "1.prems" obtain b where b: "f ?h = Inr b" by blast
    have hj: "\<forall>h<?h. \<exists>b. f h = Inr b" using "1.prems" \<open>?h < j\<close> by auto
    show ?thesis
    proof (cases b)
      case True
      from "1.IH"(2) [OF \<open>i < j\<close> b _ hj] True b \<open>i < j\<close> show ?thesis
        by (simp add: Search_loop.simps [of f i j])
    next
      case False
      from "1.IH"(1) [OF \<open>i < j\<close> b _ "1.prems"] False b \<open>i < j\<close> show ?thesis
        by (simp add: Search_loop.simps [of f i j])
    qed
  qed
qed


lemma start_above_Inr: "i < length arr \<Longrightarrow> start_above arr q i = Inr (q < start (arr ! i))"
  by (simp add: start_above_def index_def)

lemma Search_arr:
  "\<exists>idx. Search (length arr) (start_above arr q) = Inr idx \<and> idx \<le> length arr \<and>
     (0 < idx \<longrightarrow> start (arr ! (idx - 1)) \<le> q) \<and>
     (idx < length arr \<longrightarrow> q < start (arr ! idx))"
proof -
  have "\<forall>h<length arr. \<exists>b. start_above arr q h = Inr b"
    by (simp add: start_above_Inr)
  then obtain k where k: "Search_loop (start_above arr q) 0 (length arr) = Inr k"
    using Search_loop_returns by blast
  from Search_loop_bounds [OF k]
  have b: "k \<le> length arr" "0 < k \<longrightarrow> start_above arr q (k - 1) = Inr False"
    "k < length arr \<longrightarrow> start_above arr q k = Inr True"
    by simp_all
  have "0 < k \<longrightarrow> start (arr ! (k - 1)) \<le> q"
  proof
    assume "0 < k"
    with b have "start_above arr q (k - 1) = Inr False" "k - 1 < length arr" by auto
    then show "start (arr ! (k - 1)) \<le> q" by (simp add: start_above_Inr)
  qed
  moreover have "k < length arr \<longrightarrow> q < start (arr ! k)"
    using b(3) by (auto simp: start_above_Inr)
  ultimately show ?thesis using k b(1) by (auto simp: Search_def)
qed

lemma resolve_eq:
  "Search (length arr) (start_above arr q) = Inr idx \<Longrightarrow> idx \<le> length arr \<Longrightarrow>
   resolve arr q =
     Inr (if 0 < idx \<and> q \<le> end' (arr ! (idx - 1)) \<and> q \<noteq> 0 then Some (arr ! (idx - 1)) else None)"
  by (cases "idx = 0") (auto simp: resolve_def index_def)

lemma sorted_start_below:
  assumes "sorted (map start arr)" "0 < idx" "idx \<le> length arr" "start (arr ! (idx - 1)) \<le> q" "i < idx"
  shows "start (arr ! i) \<le> q"
proof -
  have "map start arr ! i \<le> map start arr ! (idx - 1)"
    using assms by (intro sorted_nth_mono) auto
  with assms show ?thesis by simp
qed

lemma sorted_start_above:
  assumes "sorted (map start arr)" "idx \<le> i" "i < length arr" "q < start (arr ! idx)"
  shows "q < start (arr ! i)"
proof -
  have "map start arr ! idx \<le> map start arr ! i"
    using assms by (intro sorted_nth_mono) auto
  with assms show ?thesis by simp
qed

lemmas eval_resolve =
  resolve_def Search_def Search_loop.simps start_above_def index_def two_ranges_def one_range_def
  net_1_2_def

lemma resolve_boundaries:
  "resolve one_range 100 = Inr (Some \<lparr>start = 100, end' = 200, country = ''US''\<rparr>)"
  "resolve one_range 200 = Inr (Some \<lparr>start = 100, end' = 200, country = ''US''\<rparr>)"
  "resolve one_range 99 = Inr None"
  "resolve one_range 201 = Inr None"
  by (simp_all add: eval_resolve)

lemma resolve_gap:
  "resolve two_ranges 150 = Inr None"
  "resolve two_ranges 99 = Inr (Some \<lparr>start = 0, end' = 99, country = ''A''\<rparr>)"
  "resolve two_ranges 200 = Inr (Some \<lparr>start = 200, end' = 299, country = ''B''\<rparr>)"
  by (simp_all add: eval_resolve)

text \<open>The resolver returns on every index, answers no query of value 0, and
  answers only with a range that holds the query.\<close>

lemma resolve_returns: "\<exists>m. resolve arr q = Inr m"
proof -
  obtain idx where "Search (length arr) (start_above arr q) = Inr idx" "idx \<le> length arr"
    using Search_arr by blast
  from resolve_eq [OF this] show ?thesis by blast
qed

lemma resolve_zero: "resolve arr 0 = Inr None"
proof -
  obtain idx where "Search (length arr) (start_above arr 0) = Inr idx" "idx \<le> length arr"
    using Search_arr by blast
  from resolve_eq [OF this] show ?thesis by simp
qed

lemma resolve_hit:
  assumes "resolve arr q = Inr (Some r)"
  shows "r \<in> set arr \<and> start r \<le> q \<and> q \<le> end' r \<and> q \<noteq> 0"
proof -
  obtain idx where idx: "Search (length arr) (start_above arr q) = Inr idx" "idx \<le> length arr"
      "0 < idx \<longrightarrow> start (arr ! (idx - 1)) \<le> q"
    using Search_arr by blast
  from resolve_eq [OF idx(1,2)] assms
  have hit: "0 < idx" "q \<le> end' (arr ! (idx - 1))" "q \<noteq> 0" "r = arr ! (idx - 1)"
    by (auto split: if_splits)
  with idx(2) have "r \<in> set arr" by simp
  with hit idx(3) show ?thesis by simp
qed

section \<open>Lemmas about normalisation\<close>

text \<open>A byte below a value shifted by eight bits: the bits do not meet, so
  \<open>OR\<close> adds.\<close>

lemma or_push_bit_byte:
  fixes x :: int
  assumes "0 \<le> d" "d < 256"
  shows "d OR push_bit 8 x = d + 256 * x"
proof -
  have "take_bit 8 d = d" using assms by (simp add: take_bit_int_eq_self)
  then have "d OR push_bit 8 x = concat_bit 8 d x"
    by (simp add: concat_bit_def)
  also have "\<dots> = d + 256 * x"
    using \<open>take_bit 8 d = d\<close> by (simp add: concat_bit_eq push_bit_eq_mult)
  finally show ?thesis .
qed

lemma be32_int:
  fixes a b c d :: int
  assumes "0 \<le> b" "b < 256" "0 \<le> c" "c < 256" "0 \<le> d" "d < 256"
  shows "d OR push_bit 8 c OR push_bit 16 b OR push_bit 24 a
           = a * 2 ^ 24 + b * 2 ^ 16 + c * 2 ^ 8 + d"
proof -
  have "push_bit 16 b OR push_bit 24 a = push_bit 16 (b OR push_bit 8 a)"
    by (simp add: push_bit_or)
  also have "b OR push_bit 8 a = b + 256 * a"
    using assms by (simp add: or_push_bit_byte)
  finally have 1: "push_bit 16 b OR push_bit 24 a = push_bit 16 (b + 256 * a)" .
  have "push_bit 8 c OR push_bit 16 (b + 256 * a) = push_bit 8 (c OR push_bit 8 (b + 256 * a))"
    by (simp add: push_bit_or)
  also have "c OR push_bit 8 (b + 256 * a) = c + 256 * (b + 256 * a)"
    using assms by (simp add: or_push_bit_byte)
  finally have 2: "push_bit 8 c OR push_bit 16 (b + 256 * a) = push_bit 8 (c + 256 * (b + 256 * a))" .
  have "d OR push_bit 8 c OR push_bit 16 b OR push_bit 24 a
      = d OR push_bit 8 (c + 256 * (b + 256 * a))"
    by (simp only: 1 2)
  also have "\<dots> = d + 256 * (c + 256 * (b + 256 * a))"
    using assms by (simp add: or_push_bit_byte)
  finally show ?thesis by simp
qed

lemma uint_byte_range: "0 \<le> uint (x :: byte)" "uint (x :: byte) < 256"
  using uint_lt2p [of x] by simp_all

lemma uint_ucast_byte: "uint (ucast (x :: byte) :: 32 word) = uint x"
proof -
  have "uint x < 2 ^ 32" using uint_byte_range(2) [of x] by simp
  then show ?thesis by (simp add: unsigned_ucast_eq take_bit_int_eq_self)
qed

lemma uint_push_ucast_byte:
  assumes "n \<le> 24"
  shows "uint (push_bit n (ucast (x :: byte)) :: 32 word) = push_bit n (uint x)"
proof -
  have "push_bit n (uint x) < 2 ^ n * 2 ^ 8"
    using uint_byte_range [of x] by (simp add: push_bit_eq_mult)
  also have "(2::int) ^ n * 2 ^ 8 = 2 ^ (n + 8)" by (simp add: power_add)
  also have "\<dots> \<le> 2 ^ 32" using assms by (intro power_increasing) auto
  finally have lt: "push_bit n (uint x) < 2 ^ 32" .
  have "0 \<le> push_bit n (uint x)" by simp
  with lt show ?thesis
    by (simp add: unsigned_push_bit_eq uint_ucast_byte take_bit_int_eq_self)
qed

lemma uint_Uint32:
  fixes a b c d :: byte
  shows "uint (ucast d OR push_bit 8 (ucast c) OR push_bit 16 (ucast b) OR push_bit 24 (ucast a) :: 32 word)
    = uint a * 2 ^ 24 + uint b * 2 ^ 16 + uint c * 2 ^ 8 + uint d"
proof -
  have "uint (ucast d OR push_bit 8 (ucast c) OR push_bit 16 (ucast b) OR push_bit 24 (ucast a) :: 32 word)
      = uint d OR push_bit 8 (uint c) OR push_bit 16 (uint b) OR push_bit 24 (uint a)"
    by (simp add: uint_or uint_ucast_byte uint_push_ucast_byte)
  also have "\<dots> = uint a * 2 ^ 24 + uint b * 2 ^ 16 + uint c * 2 ^ 8 + uint d"
    by (rule be32_int) (simp_all add: uint_byte_range)
  finally show ?thesis .
qed

lemma To4_length: "To4 ip = Some b \<Longrightarrow> length b = 4"
  by (auto simp: To4_def split: if_splits)

lemma Uint32_returns: "length b = 4 \<Longrightarrow> \<exists>w. Uint32 b = Inr w"
  by (simp add: Uint32_def)

lemma ipNum_of_returns: "\<exists>n. ipNum_of addr = Inr n"
proof (cases "To4 addr")
  case None
  then show ?thesis by (simp add: ipNum_of_def)
next
  case (Some b)
  then obtain w where "Uint32 b = Inr w" using To4_length Uint32_returns by blast
  with Some show ?thesis by (simp add: ipNum_of_def)
qed

lemma To4_IPv4: "To4 (IPv4 a b c d) = Some [a, b, c, d]"
  by (simp add: To4_def IPv4_def v4InV6Prefix_def isZeros_def)

lemma uint32_to_64: "uint (ucast (w :: 32 word) :: 64 word) = uint w"
proof -
  have "uint w < 2 ^ 32" using uint_lt2p [of w] by simp
  then have "uint w < 2 ^ 64" by simp
  then show ?thesis by (simp add: unsigned_ucast_eq take_bit_int_eq_self)
qed

lemma ipNum_of_IPv4:
  "ipNum_of (IPv4 a b c d) = Inr (uint a * 2 ^ 24 + uint b * 2 ^ 16 + uint c * 2 ^ 8 + uint d)"
  by (simp add: ipNum_of_def To4_IPv4 Uint32_def uint32_to_64 uint_Uint32)

lemma foldl_SetBytes:
  "foldl (\<lambda>z b. z * 256 + uint (b :: byte)) z bs = z * 256 ^ length bs + big_endian bs"
  by (induction bs arbitrary: z) (simp_all add: algebra_simps)

lemma SetBytes_big_endian: "SetBytes buf = big_endian buf"
  by (simp add: SetBytes_def foldl_SetBytes)

lemma big_endian_range: "0 \<le> big_endian bs \<and> big_endian bs < 256 ^ length bs"
proof (induction bs)
  case Nil
  show ?case by simp
next
  case (Cons b bs)
  let ?X = "(256::int) ^ length bs"
  have "uint b \<le> 255" using uint_byte_range(2) [of b] by simp
  then have le: "uint b * ?X \<le> 255 * ?X"
    by (intro mult_right_mono) simp_all
  have ge: "0 \<le> uint b * ?X" by simp
  from le Cons have "uint b * ?X + big_endian bs < 255 * ?X + ?X" by linarith
  also have "\<dots> = 256 * ?X" by simp
  finally have "big_endian (b # bs) < 256 ^ length (b # bs)" by simp
  moreover from ge Cons have "0 \<le> big_endian (b # bs)" by simp
  ultimately show ?case by blast
qed

lemma length16:
  assumes "length (ip :: 'a list) = 16"
  obtains x0 x1 x2 x3 x4 x5 x6 x7 x8 x9 x10 x11 x12 x13 x14 x15
  where "ip = [x0, x1, x2, x3, x4, x5, x6, x7, x8, x9, x10, x11, x12, x13, x14, x15]"
  using assms by (auto simp: eval_nat_numeral length_Suc_conv)

lemma To4_16:
  assumes "length ip = 16"
  shows "To4 ip = (if take 12 ip = v4InV6Prefix then Some (drop 12 ip) else None)"
proof -
  from assms obtain x0 x1 x2 x3 x4 x5 x6 x7 x8 x9 x10 x11 x12 x13 x14 x15
    where ip: "ip = [x0, x1, x2, x3, x4, x5, x6, x7, x8, x9, x10, x11, x12, x13, x14, x15]"
    by (rule length16)
  show ?thesis
    unfolding ip by (auto simp: To4_def isZeros_def v4InV6Prefix_def)
qed

lemma mapped_is_IPv4:
  assumes "length ip = 16" "take 12 ip = v4InV6Prefix"
  shows "\<exists>a b c d. ip = IPv4 a b c d \<and> drop 12 ip = [a, b, c, d]"
proof -
  from assms(1) obtain x0 x1 x2 x3 x4 x5 x6 x7 x8 x9 x10 x11 x12 x13 x14 x15
    where ip: "ip = [x0, x1, x2, x3, x4, x5, x6, x7, x8, x9, x10, x11, x12, x13, x14, x15]"
    by (rule length16)
  from assms(2) show ?thesis
    unfolding ip by (simp add: IPv4_def v4InV6Prefix_def)
qed

lemma big_endian4:
  "big_endian [a, b, c, d] = uint a * 2 ^ 24 + uint b * 2 ^ 16 + uint c * 2 ^ 8 + uint d"
  by simp

section \<open>Lemmas about the handler\<close>

lemma parseIpAddress_Some:
  "parseIpAddress v4 v6 raw = Some a \<Longrightarrow> IpAddr a = Some raw \<and> raw \<noteq> []"
  by (auto simp: parseIpAddress_def required_def split: if_splits)

lemma getIpInfo_cases:
  "getIpInfo v4 v6 P arr raw =
     (case parseIpAddress v4 v6 raw of
        None \<Rightarrow> Inr notFound
      | Some a \<Rightarrow>
          (case P raw of
             None \<Rightarrow> Inr notFound
           | Some addr \<Rightarrow>
               (case ipNum_of addr of
                  Inl e \<Rightarrow> Inl e
                | Inr q \<Rightarrow>
                    (case resolve arr q of
                       Inl e \<Rightarrow> Inl e
                     | Inr None \<Rightarrow> Inr notFound
                     | Inr (Some r) \<Rightarrow>
                         Inr \<lparr>IpAddr = Some raw, IpV6 = IpV6 a,
                              Ok = True, Country = Some (country r)\<rparr>))))"
  by (auto simp: getIpInfo_def dest: parseIpAddress_Some split: option.splits sum.splits)

lemma getIpInfo_returns: "\<exists>resp. getIpInfo v4 v6 P arr raw = Inr resp"
proof -
  show ?thesis
  proof (cases "parseIpAddress v4 v6 raw")
    case None
    then show ?thesis by (simp add: getIpInfo_cases)
  next
    case (Some a)
    show ?thesis
    proof (cases "P raw")
      case None
      with Some show ?thesis by (simp add: getIpInfo_cases)
    next
      case (Some addr)
      obtain q where q: "ipNum_of addr = Inr q" using ipNum_of_returns by blast
      obtain m where m: "resolve arr q = Inr m" using resolve_returns by blast
      from Some \<open>parseIpAddress v4 v6 raw = Some a\<close> q m show ?thesis
        by (cases m) (simp_all add: getIpInfo_cases)
    qed
  qed
qed

section \<open>Lemmas about the read loop\<close>

declare read_loop.simps [simp del]

lemma parse_record3:
  "parse_record [f0, f1, f2] =
     (case SetString f0 of
        None \<Rightarrow> Inr None
      | Some s \<Rightarrow>
          (case SetString f1 of
             None \<Rightarrow> Inr None
           | Some e \<Rightarrow> Inr (Some \<lparr>start = s, end' = e, country = f2\<rparr>)))"
  by (simp add: parse_record_def index_def split: option.splits)

lemma read_loop_step:
  "Read r = (Inr rec, r') \<Longrightarrow>
   read_loop r arr =
     (case parse_record rec of
        Inl e \<Rightarrow> Inl e
      | Inr None \<Rightarrow> read_loop r' arr
      | Inr (Some x) \<Rightarrow> read_loop r' (arr @ [x]))"
  by (simp add: read_loop.simps [of r arr])

lemma read_loop_stop: "Read r = (Inl err, r') \<Longrightarrow> read_loop r arr = Inr arr"
  by (simp add: read_loop.simps [of r arr])

text \<open>A malformed line, or a line of the wrong field count, ends the loop: the
  lines after it are never read.\<close>

lemma read_loop_Malformed:
  "read_loop (r\<lparr>input := ls @ Malformed # rest\<rparr>) arr = read_loop (r\<lparr>input := ls\<rparr>) arr"
proof (induction ls arbitrary: r arr)
  case Nil
  show ?case by (simp add: read_loop.simps Read_def)
next
  case (Cons l ls)
  show ?case
  proof (cases l)
    case Malformed
    then show ?thesis by (simp add: read_loop.simps Read_def)
  next
    case (Fields dst)
    show ?thesis
    proof (cases "0 < FieldsPerRecord r")
      case True
      with Fields Cons.IH [of r] show ?thesis
        by (simp add: read_loop.simps [of "r\<lparr>input := _\<rparr>"] Read_def split: sum.splits option.splits)
    next
      case False
      with Fields Cons.IH [of "r\<lparr>FieldsPerRecord := length dst\<rparr>"] show ?thesis
        by (simp add: read_loop.simps [of "r\<lparr>input := _\<rparr>"] Read_def split: sum.splits option.splits)
    qed
  qed
qed

lemma read_loop_Malformed_New:
  "read_loop (NewReader (ls @ Malformed # rest)) arr = read_loop (NewReader ls) arr"
  using read_loop_Malformed [where r = "NewReader []" and ls = ls and rest = rest and arr = arr]
  by (simp add: NewReader_def)

lemma read_loop_field_count:
  assumes "0 < FieldsPerRecord r" "length fs \<noteq> FieldsPerRecord r"
  shows "read_loop (r\<lparr>input := ls @ Fields fs # rest\<rparr>) arr = read_loop (r\<lparr>input := ls\<rparr>) arr"
proof (induction ls arbitrary: arr)
  case Nil
  from assms show ?case by (simp add: read_loop.simps Read_def)
next
  case (Cons l ls)
  show ?case
  proof (cases l)
    case Malformed
    then show ?thesis by (simp add: read_loop.simps Read_def)
  next
    case (Fields dst)
    with assms Cons.IH show ?thesis
      by (simp add: read_loop.simps [of "r\<lparr>input := _\<rparr>"] Read_def split: sum.splits option.splits)
  qed
qed

lemma Read_first:
  "Read (NewReader (Fields f1 # ls)) = (Inr f1, \<lparr>FieldsPerRecord = length f1, input = ls\<rparr>)"
  by (simp add: Read_def NewReader_def)

lemma read_loop_field_count_New:
  assumes "length fs \<noteq> length f1"
  shows "read_loop (NewReader (Fields f1 # ls @ Fields fs # rest)) arr
           = read_loop (NewReader (Fields f1 # ls)) arr"
proof (cases "f1 = []")
  case True
  then have "parse_record f1 = Inl IndexOutOfRange"
    by (simp add: parse_record_def index_def)
  then show ?thesis
    by (simp add: read_loop_step [OF Read_first])
next
  case False
  let ?r = "\<lparr>FieldsPerRecord = length f1, input = []\<rparr>"
  have r: "0 < FieldsPerRecord ?r" "length fs \<noteq> FieldsPerRecord ?r"
    using False assms by simp_all
  have "read_loop (?r\<lparr>input := ls @ Fields fs # rest\<rparr>) xs = read_loop (?r\<lparr>input := ls\<rparr>) xs" for xs
    by (rule read_loop_field_count [OF r])
  then show ?thesis
    by (simp add: read_loop_step [OF Read_first] split: sum.splits option.splits)
qed

lemmas eval_load =
  loadCsv_def downloadCsv_def read_loop.simps Read_def NewReader_def parse_record_def index_def
  SetString_def digits_def is_digit_def

lemma broken_file_loaded:
  "load_files [Some broken_file] [] = Inr [\<lparr>start = 1, end' = 2, country = ''A''\<rparr>]"
  by (simp add: eval_load broken_file_def)

section \<open>Lemmas about sorting\<close>








section \<open>Verified properties\<close>

text \<open>
  C1. On an index sorted ascending by \<open>start\<close> and a query \<open>q\<close> other than 0,
  the search returns the lowest position \<open>idx\<close> whose \<open>start\<close> is above \<open>q\<close>
  (every range before it starts at or below \<open>q\<close>, every range from it on starts
  above \<open>q\<close>; \<open>idx\<close> is the length of the index when there is none). When
  \<open>idx\<close> is the first position the answer is negative; otherwise it is the range
  just before \<open>idx\<close> exactly when \<open>q\<close> is at most the \<open>end\<close> of that range, and
  negative otherwise; and the handler, on an address of value \<open>q\<close>, answers
  \<^verbatim>\<open>ok: true\<close> with the country of that range in the first case and
  \<^verbatim>\<open>{ok: false}\<close> in the others. So a query below the first \<open>start\<close>, or one
  that no range contains, misses. Sortedness is all that is used; that the
  ranges do not overlap is not needed.
\<close>

theorem resolve_upper_bound:
  assumes srt: "sorted (map start arr)" and nz: "q \<noteq> 0"
  shows "(\<exists>idx. Search (length arr) (start_above arr q) = Inr idx \<and> idx \<le> length arr \<and>
           (\<forall>i<idx. start (arr ! i) \<le> q) \<and>
           (\<forall>i. idx \<le> i \<and> i < length arr \<longrightarrow> q < start (arr ! i)) \<and>
           resolve arr q =
             Inr (if idx = 0 then None
                  else if q \<le> end' (arr ! (idx - 1)) then Some (arr ! (idx - 1))
                  else None) \<and>
           (parseIpAddress v4 v6 raw = Some a \<and> P raw = Some addr \<and> ipNum_of addr = Inr q \<longrightarrow>
              getIpInfo v4 v6 P arr raw =
                Inr (if idx = 0 then notFound
                     else if q \<le> end' (arr ! (idx - 1))
                     then \<lparr>IpAddr = Some raw, IpV6 = IpV6 a, Ok = True,
                           Country = Some (country (arr ! (idx - 1)))\<rparr>
                     else notFound))) \<and>
         (arr \<noteq> [] \<and> q < start (arr ! 0) \<longrightarrow> resolve arr q = Inr None) \<and>
         ((\<forall>r\<in>set arr. \<not> (start r \<le> q \<and> q \<le> end' r)) \<longrightarrow> resolve arr q = Inr None)"
proof -
  obtain idx where idx: "Search (length arr) (start_above arr q) = Inr idx" "idx \<le> length arr"
      "0 < idx \<longrightarrow> start (arr ! (idx - 1)) \<le> q" "idx < length arr \<longrightarrow> q < start (arr ! idx)"
    using Search_arr by blast
  have below: "\<forall>i<idx. start (arr ! i) \<le> q"
    using sorted_start_below [OF srt _ idx(2)] idx(3) by (cases "0 < idx") auto
  have above: "\<forall>i. idx \<le> i \<and> i < length arr \<longrightarrow> q < start (arr ! i)"
    using sorted_start_above [OF srt] idx(4) by auto
  have res: "resolve arr q =
      Inr (if idx = 0 then None
           else if q \<le> end' (arr ! (idx - 1)) then Some (arr ! (idx - 1)) else None)"
    using resolve_eq [OF idx(1,2)] nz by simp
  have handler: "parseIpAddress v4 v6 raw = Some a \<and> P raw = Some addr \<and> ipNum_of addr = Inr q \<longrightarrow>
      getIpInfo v4 v6 P arr raw =
        Inr (if idx = 0 then notFound
             else if q \<le> end' (arr ! (idx - 1))
             then \<lparr>IpAddr = Some raw, IpV6 = IpV6 a, Ok = True,
                   Country = Some (country (arr ! (idx - 1)))\<rparr>
             else notFound)"
    by (simp add: getIpInfo_cases res)
  have first: "\<exists>idx. Search (length arr) (start_above arr q) = Inr idx \<and> idx \<le> length arr \<and>
           (\<forall>i<idx. start (arr ! i) \<le> q) \<and>
           (\<forall>i. idx \<le> i \<and> i < length arr \<longrightarrow> q < start (arr ! i)) \<and>
           resolve arr q =
             Inr (if idx = 0 then None
                  else if q \<le> end' (arr ! (idx - 1)) then Some (arr ! (idx - 1))
                  else None) \<and>
           (parseIpAddress v4 v6 raw = Some a \<and> P raw = Some addr \<and> ipNum_of addr = Inr q \<longrightarrow>
              getIpInfo v4 v6 P arr raw =
                Inr (if idx = 0 then notFound
                     else if q \<le> end' (arr ! (idx - 1))
                     then \<lparr>IpAddr = Some raw, IpV6 = IpV6 a, Ok = True,
                           Country = Some (country (arr ! (idx - 1)))\<rparr>
                     else notFound))"
    using idx(1,2) below above res handler by blast
  have low: "arr \<noteq> [] \<and> q < start (arr ! 0) \<longrightarrow> resolve arr q = Inr None"
  proof
    assume a: "arr \<noteq> [] \<and> q < start (arr ! 0)"
    have "idx = 0"
    proof (rule ccontr)
      assume "idx \<noteq> 0"
      then have "start (arr ! 0) \<le> q" using below by simp
      with a show False by simp
    qed
    with res show "resolve arr q = Inr None" by simp
  qed
  have gap: "(\<forall>r\<in>set arr. \<not> (start r \<le> q \<and> q \<le> end' r)) \<longrightarrow> resolve arr q = Inr None"
  proof
    assume gap: "\<forall>r\<in>set arr. \<not> (start r \<le> q \<and> q \<le> end' r)"
    show "resolve arr q = Inr None"
    proof (cases "idx = 0")
      case True
      with res show ?thesis by simp
    next
      case False
      with idx(2) have "arr ! (idx - 1) \<in> set arr" by simp
      with gap idx(3) False have "\<not> q \<le> end' (arr ! (idx - 1))" by auto
      with res False show ?thesis by simp
    qed
  qed
  from first low gap show ?thesis by blast
qed

theorem resolve_upper_bound_witness:
  "sorted (map start two_ranges) \<and> (150::int) \<noteq> 0 \<and>
   Search (length two_ranges) (start_above two_ranges 150) = Inr 1 \<and>
   list_all (\<lambda>r. \<not> (start r \<le> 150 \<and> 150 \<le> end' r)) two_ranges \<and>
   resolve two_ranges 150 = Inr None \<and>
   sorted (map start net_1_2) \<and> (16909060::int) \<noteq> 0 \<and>
   parseIpAddress sample_ip4_addr sample_ip6_addr ''1.2.3.4''
     = Some \<lparr>IpAddr = Some ''1.2.3.4'', IpV6 = False\<rparr> \<and>
   sample_ParseIP ''1.2.3.4'' = Some (IPv4 1 2 3 4) \<and>
   ipNum_of (IPv4 1 2 3 4) = Inr 16909060 \<and>
   Search (length net_1_2) (start_above net_1_2 16909060) = Inr 2 \<and>
   getIpInfo sample_ip4_addr sample_ip6_addr sample_ParseIP net_1_2 ''1.2.3.4''
     = Inr \<lparr>IpAddr = Some ''1.2.3.4'', IpV6 = False, Ok = True, Country = Some ''US''\<rparr>"
proof -
  have h: "sorted (map start two_ranges)" "(150::int) \<noteq> 0"
    by (simp_all add: two_ranges_def)
  have g: "\<forall>r\<in>set two_ranges. \<not> (start r \<le> 150 \<and> 150 \<le> end' r)"
    by (simp add: two_ranges_def)
  from resolve_upper_bound [OF h] g have miss: "resolve two_ranges 150 = Inr None"
    by blast
  have s1: "Search (length two_ranges) (start_above two_ranges 150) = Inr 1"
    by (simp add: eval_resolve)
  have k: "sorted (map start net_1_2)" "(16909060::int) \<noteq> 0"
    by (simp_all add: net_1_2_def)
  have p: "parseIpAddress sample_ip4_addr sample_ip6_addr ''1.2.3.4''
      = Some \<lparr>IpAddr = Some ''1.2.3.4'', IpV6 = False\<rparr>"
    "sample_ParseIP ''1.2.3.4'' = Some (IPv4 1 2 3 4)"
    by (simp_all add: parseIpAddress_def required_def sample_ip4_addr_def sample_ParseIP_def To4_IPv4)
  have n: "ipNum_of (IPv4 1 2 3 4) = Inr 16909060"
    by (simp add: ipNum_of_IPv4)
  have s2: "Search (length net_1_2) (start_above net_1_2 16909060) = Inr 2"
    by (simp add: eval_resolve)
  from resolve_upper_bound [OF k, where ?v4.0 = sample_ip4_addr and ?v6.0 = sample_ip6_addr
      and raw = "''1.2.3.4''" and a = "\<lparr>IpAddr = Some ''1.2.3.4'', IpV6 = False\<rparr>"
      and P = sample_ParseIP and addr = "IPv4 1 2 3 4"] p n s2
  have hit: "getIpInfo sample_ip4_addr sample_ip6_addr sample_ParseIP net_1_2 ''1.2.3.4''
      = Inr \<lparr>IpAddr = Some ''1.2.3.4'', IpV6 = False, Ok = True, Country = Some ''US''\<rparr>"
    by (auto simp: net_1_2_def)
  from h g miss s1 k p n s2 hit show ?thesis by (simp add: list_all_iff)
qed

text \<open>
  C2, amended. The bytes of an IPv4 address \<open>a.b.c.d\<close> (which are also the bytes
  of the IPv6 literal \<open>::ffff:a.b.c.d\<close>) are normalised to the unsigned 32-bit
  integer of the four octets in big-endian order. Sixteen bytes that do not
  begin with the IPv4-mapped prefix are normalised to their unsigned big-endian
  128-bit integer. Sixteen bytes that do begin with it are normalised to the
  32-bit integer of their last four bytes, not to their 128-bit integer.
\<close>

theorem normalisation_big_endian:
  "ipNum_of (IPv4 a b c d) = Inr (uint a * 2 ^ 24 + uint b * 2 ^ 16 + uint c * 2 ^ 8 + uint d) \<and>
   (length addr = 16 \<and> take 12 addr \<noteq> v4InV6Prefix \<longrightarrow>
      ipNum_of addr = Inr (big_endian addr) \<and> 0 \<le> big_endian addr \<and> big_endian addr < 2 ^ 128) \<and>
   (length addr = 16 \<and> take 12 addr = v4InV6Prefix \<longrightarrow>
      ipNum_of addr = Inr (big_endian (drop 12 addr)) \<and> big_endian (drop 12 addr) < 2 ^ 32)"
proof (intro conjI impI)
  show "ipNum_of (IPv4 a b c d) = Inr (uint a * 2 ^ 24 + uint b * 2 ^ 16 + uint c * 2 ^ 8 + uint d)"
    by (rule ipNum_of_IPv4)
next
  assume h: "length addr = 16 \<and> take 12 addr \<noteq> v4InV6Prefix"
  then show "ipNum_of addr = Inr (big_endian addr)"
    by (simp add: ipNum_of_def To4_16 SetBytes_big_endian)
  from big_endian_range [of addr] h show "0 \<le> big_endian addr" "big_endian addr < 2 ^ 128"
    by simp_all
next
  assume h: "length addr = 16 \<and> take 12 addr = v4InV6Prefix"
  then obtain w x y z where m: "addr = IPv4 w x y z" "drop 12 addr = [w, x, y, z]"
    using mapped_is_IPv4 by blast
  have "ipNum_of addr = Inr (big_endian [w, x, y, z])"
    unfolding m(1) big_endian4 by (rule ipNum_of_IPv4)
  with m(2) show "ipNum_of addr = Inr (big_endian (drop 12 addr))" by simp
  from big_endian_range [of "[w, x, y, z]"] m(2) show "big_endian (drop 12 addr) < 2 ^ 32"
    by simp
qed

theorem normalisation_big_endian_witness:
  "length doc_prefix_1 = 16 \<and> take 12 doc_prefix_1 \<noteq> v4InV6Prefix \<and>
   ipNum_of doc_prefix_1 = Inr 42540766411282592856903984951653826561 \<and>
   big_endian doc_prefix_1 = 42540766411282592856903984951653826561 \<and>
   length mapped_1234 = 16 \<and> take 12 mapped_1234 = v4InV6Prefix \<and>
   ipNum_of mapped_1234 = Inr 16909060 \<and>
   ipNum_of (IPv4 140 82 114 3) = Inr 2354213379"
proof -
  have a: "length doc_prefix_1 = 16 \<and> take 12 doc_prefix_1 \<noteq> v4InV6Prefix"
    by (simp add: doc_prefix_1_def v4InV6Prefix_def)
  have b: "length mapped_1234 = 16 \<and> take 12 mapped_1234 = v4InV6Prefix"
    by (simp add: mapped_1234_def v4InV6Prefix_def)
  have c: "big_endian doc_prefix_1 = 42540766411282592856903984951653826561"
    by (simp add: doc_prefix_1_def)
  have d: "big_endian (drop 12 mapped_1234) = 16909060"
    by (simp add: mapped_1234_def)
  from normalisation_big_endian [of 140 82 114 3 doc_prefix_1] a c
    normalisation_big_endian [of 140 82 114 3 mapped_1234] b d
  show ?thesis by simp
qed

text \<open>
  C2 as stated fails on the IPv6 literal \<open>::ffff:102:304\<close>: its 16 bytes are
  normalised to \<open>0x01020304\<close>, while their big-endian 128-bit integer is
  \<open>0xffff01020304\<close>.
\<close>

theorem mapped_ipv6_counterexample:
  "length mapped_1234 = 16 \<and>
   ipNum_of mapped_1234 = Inr 16909060 \<and>
   big_endian mapped_1234 = 281470698652420 \<and>
   ipNum_of mapped_1234 \<noteq> Inr (big_endian mapped_1234)"
proof -
  have m: "mapped_1234 = IPv4 1 2 3 4"
    by (simp add: mapped_1234_def IPv4_def v4InV6Prefix_def)
  have "ipNum_of mapped_1234 = Inr 16909060"
    unfolding m by (simp add: ipNum_of_IPv4)
  moreover have "big_endian mapped_1234 = 281470698652420"
    by (simp add: mapped_1234_def)
  ultimately show ?thesis by (simp add: mapped_1234_def)
qed

text \<open>
  C3. A query of value 0 is answered negatively on every index, also on one
  with a range that starts at 0; \<open>0.0.0.0\<close> has the value 0; and the handler
  answers \<^verbatim>\<open>{ok: false}\<close> whenever the parsed address has the value 0.
\<close>

theorem zero_never_matches:
  "resolve arr 0 = Inr None \<and>
   ipNum_of (IPv4 0 0 0 0) = Inr 0 \<and>
   (P raw = Some addr \<and> ipNum_of addr = Inr 0 \<longrightarrow> getIpInfo v4 v6 P arr raw = Inr notFound)"
  by (simp add: resolve_zero ipNum_of_IPv4 getIpInfo_cases split: option.splits)

theorem zero_never_matches_witness:
  "sample_ParseIP ''0.0.0.0'' = Some (IPv4 0 0 0 0) \<and> ipNum_of (IPv4 0 0 0 0) = Inr 0 \<and>
   parseIpAddress sample_ip4_addr sample_ip6_addr ''0.0.0.0''
     = Some \<lparr>IpAddr = Some ''0.0.0.0'', IpV6 = False\<rparr> \<and>
   getIpInfo sample_ip4_addr sample_ip6_addr sample_ParseIP from_zero ''0.0.0.0'' = Inr notFound"
  using zero_never_matches [of from_zero sample_ParseIP "''0.0.0.0''" "IPv4 0 0 0 0"
      sample_ip4_addr sample_ip6_addr]
  by (simp add: sample_ParseIP_def parseIpAddress_def required_def sample_ip4_addr_def To4_IPv4)

text \<open>
  C4. On the empty index the handler answers \<^verbatim>\<open>{ok: false}\<close> to every request,
  whatever the validator and the parser say of the address, and does not panic;
  so does the resolver on every query value.
\<close>

theorem empty_index_not_found:
  "getIpInfo v4 v6 P [] raw = Inr notFound \<and> resolve [] q = Inr None"
proof -
  have r: "resolve [] q = Inr None" for q
    by (simp add: resolve_def Search_def Search_loop.simps)
  have "getIpInfo v4 v6 P [] raw = Inr notFound"
  proof (cases "P raw")
    case None
    then show ?thesis by (simp add: getIpInfo_cases split: option.splits)
  next
    case (Some addr)
    obtain n where "ipNum_of addr = Inr n" using ipNum_of_returns by blast
    with Some r show ?thesis by (simp add: getIpInfo_cases split: option.splits)
  qed
  with r show ?thesis by simp
qed

text \<open>
  C5. The handler returns a response on every input string, every index and
  every behaviour of the validator and the parser: it never panics. When the
  validator rejects the string under both tags, or the parser returns nil, the
  response is \<^verbatim>\<open>{ok: false}\<close>; the empty string is always rejected.
\<close>

theorem getIpInfo_never_faults:
  "(\<exists>resp. getIpInfo v4 v6 P arr raw = Inr resp) \<and>
   (parseIpAddress v4 v6 raw = None \<longrightarrow> getIpInfo v4 v6 P arr raw = Inr notFound) \<and>
   (P raw = None \<longrightarrow> getIpInfo v4 v6 P arr raw = Inr notFound) \<and>
   getIpInfo v4 v6 P arr [] = Inr notFound"
proof -
  have "parseIpAddress v4 v6 [] = None" by (simp add: parseIpAddress_def required_def)
  then have "getIpInfo v4 v6 P arr [] = Inr notFound" by (simp add: getIpInfo_cases)
  then show ?thesis
    using getIpInfo_returns [of v4 v6 P arr raw]
    by (simp add: getIpInfo_cases split: option.splits)
qed

theorem getIpInfo_never_faults_witness:
  "parseIpAddress sample_ip4_addr sample_ip6_addr ''not an address'' = None \<and>
   sample_ParseIP ''2001:db8:'' = None \<and>
   getIpInfo sample_ip4_addr sample_ip6_addr sample_ParseIP two_ranges ''not an address'' = Inr notFound \<and>
   getIpInfo sample_ip4_addr sample_ip6_addr sample_ParseIP two_ranges ''2001:db8:'' = Inr notFound"
proof -
  have a: "parseIpAddress sample_ip4_addr sample_ip6_addr ''not an address'' = None"
    by (simp add: parseIpAddress_def sample_ip4_addr_def sample_ip6_addr_def sample_ParseIP_def)
  have b: "sample_ParseIP ''2001:db8:'' = None"
    by (simp add: sample_ParseIP_def)
  from a b
    getIpInfo_never_faults [of sample_ip4_addr sample_ip6_addr sample_ParseIP two_ranges "''not an address''"]
    getIpInfo_never_faults [of sample_ip4_addr sample_ip6_addr sample_ParseIP two_ranges "''2001:db8:''"]
  show ?thesis by simp
qed




text \<open>
  C7. A record of three fields: when the first or the second field is no
  base-10 integer, nothing is appended and the loop goes on with the rest of
  the input, without a panic; otherwise exactly one range is appended, with the
  two parsed bounds and the third field as it is.
\<close>

theorem three_field_record:
  "(SetString f0 = None \<or> SetString f1 = None \<longrightarrow>
      parse_record [f0, f1, f2] = Inr None \<and>
      (Read r = (Inr [f0, f1, f2], r') \<longrightarrow> read_loop r arr = read_loop r' arr)) \<and>
   (SetString f0 = Some s \<and> SetString f1 = Some e \<longrightarrow>
      parse_record [f0, f1, f2] = Inr (Some \<lparr>start = s, end' = e, country = f2\<rparr>) \<and>
      (Read r = (Inr [f0, f1, f2], r') \<longrightarrow>
         read_loop r arr = read_loop r' (arr @ [\<lparr>start = s, end' = e, country = f2\<rparr>])))"
  by (auto simp: parse_record3 read_loop_step split: option.splits)

theorem three_field_record_witness:
  "SetString ''abc'' = None \<and>
   Read (NewReader bad_then_good)
     = (Inr [''abc'', ''5'', ''XX''], \<lparr>FieldsPerRecord = 3, input = [Fields [''1'', ''2'', ''US'']]\<rparr>) \<and>
   parse_record [''abc'', ''5'', ''XX''] = Inr None \<and>
   read_loop (NewReader bad_then_good) []
     = read_loop \<lparr>FieldsPerRecord = 3, input = [Fields [''1'', ''2'', ''US'']]\<rparr> [] \<and>
   SetString ''1'' = Some 1 \<and> SetString ''2'' = Some 2 \<and>
   parse_record [''1'', ''2'', ''US''] = Inr (Some \<lparr>start = 1, end' = 2, country = ''US''\<rparr>) \<and>
   read_loop (NewReader bad_then_good) [] = Inr [\<lparr>start = 1, end' = 2, country = ''US''\<rparr>]"
proof -
  have a: "SetString ''abc'' = None" "SetString ''1'' = Some 1" "SetString ''2'' = Some 2"
    by (simp_all add: SetString_def digits_def is_digit_def)
  have b: "Read (NewReader bad_then_good)
     = (Inr [''abc'', ''5'', ''XX''], \<lparr>FieldsPerRecord = 3, input = [Fields [''1'', ''2'', ''US'']]\<rparr>)"
    by (simp add: Read_def NewReader_def bad_then_good_def)
  have c: "Read \<lparr>FieldsPerRecord = 3, input = [Fields [''1'', ''2'', ''US'']]\<rparr>
     = (Inr [''1'', ''2'', ''US''], \<lparr>FieldsPerRecord = 3, input = []\<rparr>)"
    by (simp add: Read_def)
  have d: "read_loop \<lparr>FieldsPerRecord = 3, input = []\<rparr> xs = Inr xs" for xs
    by (simp add: read_loop.simps Read_def)
  from three_field_record [of "''abc''" "''5''" "''XX''" "NewReader bad_then_good" _ "[]"] a b
  have 1: "parse_record [''abc'', ''5'', ''XX''] = Inr None"
    "read_loop (NewReader bad_then_good) []
       = read_loop \<lparr>FieldsPerRecord = 3, input = [Fields [''1'', ''2'', ''US'']]\<rparr> []"
    by simp_all
  from three_field_record [of "''1''" "''2''" "''US''"
      "\<lparr>FieldsPerRecord = 3, input = [Fields [''1'', ''2'', ''US'']]\<rparr>" _ "[]" 1 2] a c d
  have 2: "parse_record [''1'', ''2'', ''US''] = Inr (Some \<lparr>start = 1, end' = 2, country = ''US''\<rparr>)"
    "read_loop \<lparr>FieldsPerRecord = 3, input = [Fields [''1'', ''2'', ''US'']]\<rparr> []
       = Inr [\<lparr>start = 1, end' = 2, country = ''US''\<rparr>]"
    by simp_all
  from a b 1 2 show ?thesis by simp
qed

text \<open>
  C8. Whenever the resolver answers with a range, on any index at all (sorted
  or not, with overlapping, duplicated or reversed ranges), that range is in the
  index and holds the query between its \<open>start\<close> and its \<open>end\<close>, both
  inclusive; and whenever the handler answers \<^verbatim>\<open>ok: true\<close>, the country is that of
  such a range for the value of the parsed address.
\<close>

theorem hit_contains_query:
  "(resolve arr q = Inr (Some r) \<longrightarrow> r \<in> set arr \<and> start r \<le> q \<and> q \<le> end' r) \<and>
   (getIpInfo v4 v6 P arr raw = Inr resp \<and> Ok resp \<longrightarrow>
      (\<exists>addr n m. P raw = Some addr \<and> ipNum_of addr = Inr n \<and> resolve arr n = Inr (Some m) \<and>
         m \<in> set arr \<and> Country resp = Some (country m) \<and> start m \<le> n \<and> n \<le> end' m))"
proof -
  have 1: "resolve arr q = Inr (Some r) \<longrightarrow> r \<in> set arr \<and> start r \<le> q \<and> q \<le> end' r"
    using resolve_hit by blast
  have 2: "getIpInfo v4 v6 P arr raw = Inr resp \<and> Ok resp \<longrightarrow>
      (\<exists>addr n m. P raw = Some addr \<and> ipNum_of addr = Inr n \<and> resolve arr n = Inr (Some m) \<and>
         m \<in> set arr \<and> Country resp = Some (country m) \<and> start m \<le> n \<and> n \<le> end' m)"
  proof
    assume a: "getIpInfo v4 v6 P arr raw = Inr resp \<and> Ok resp"
    then obtain addr n m where h: "P raw = Some addr" "ipNum_of addr = Inr n"
        "resolve arr n = Inr (Some m)" "Country resp = Some (country m)"
      by (auto simp: getIpInfo_cases notFound_def split: option.splits sum.splits)
    with resolve_hit [OF h(3)] show "\<exists>addr n m. P raw = Some addr \<and> ipNum_of addr = Inr n \<and>
         resolve arr n = Inr (Some m) \<and>
         m \<in> set arr \<and> Country resp = Some (country m) \<and> start m \<le> n \<and> n \<le> end' m"
      by blast
  qed
  from 1 2 show ?thesis by blast
qed

theorem hit_contains_query_witness:
  "resolve overlapping 25 = Inr (Some \<lparr>start = 20, end' = 30, country = ''B''\<rparr>) \<and>
   \<lparr>start = 20, end' = 30, country = ''B''\<rparr> \<in> set overlapping \<and>
   start \<lparr>start = 20, end' = 30, country = ''B''\<rparr> \<le> 25 \<and>
   25 \<le> end' \<lparr>start = 20, end' = 30, country = ''B''\<rparr>"
proof -
  have h: "resolve overlapping 25 = Inr (Some \<lparr>start = 20, end' = 30, country = ''B''\<rparr>)"
    by (simp add: resolve_def Search_def Search_loop.simps start_above_def index_def overlapping_def)
  from hit_contains_query [of overlapping 25 "\<lparr>start = 20, end' = 30, country = ''B''\<rparr>"] h
  show ?thesis by blast
qed

text \<open>
  C9. Any error of \<^verbatim>\<open>Read\<close> ends the loop with what was collected so far. So
  a malformed line, or a line whose field count differs from the first line's,
  makes the rest of its file unread: the file loads as if it ended just before
  that line, in \<^verbatim>\<open>loadCsv\<close> and in \<^verbatim>\<open>downloadCsv\<close> alike, and the files after
  it are still read.
\<close>

theorem read_error_ends_file:
  "(Read r = (Inl err, r') \<longrightarrow> read_loop r arr = Inr arr) \<and>
   read_loop (NewReader (ls @ Malformed # rest)) arr = read_loop (NewReader ls) arr \<and>
   (length fs \<noteq> length f1 \<longrightarrow>
      read_loop (NewReader (Fields f1 # ls @ Fields fs # rest)) arr
        = read_loop (NewReader (Fields f1 # ls)) arr) \<and>
   loadCsv srt (Some (ls @ Malformed # rest) # files) = loadCsv srt (Some ls # files) \<and>
   (length fs \<noteq> length f1 \<longrightarrow>
      loadCsv srt (Some (Fields f1 # ls @ Fields fs # rest) # files)
        = loadCsv srt (Some (Fields f1 # ls) # files)) \<and>
   downloadCsv (Some (ls @ Malformed # rest) # files) = downloadCsv (Some ls # files) \<and>
   (length fs \<noteq> length f1 \<longrightarrow>
      downloadCsv (Some (Fields f1 # ls @ Fields fs # rest) # files)
        = downloadCsv (Some (Fields f1 # ls) # files))"
  by (simp add: read_loop_stop read_loop_Malformed_New read_loop_field_count_New
      loadCsv_def downloadCsv_def)

theorem read_error_ends_file_witness:
  "Read \<lparr>FieldsPerRecord = 3, input = [Fields [''3'', ''4''], Fields [''5'', ''6'', ''B'']]\<rparr>
     = (Inl ErrFieldCount, \<lparr>FieldsPerRecord = 3, input = [Fields [''5'', ''6'', ''B'']]\<rparr>) \<and>
   read_loop \<lparr>FieldsPerRecord = 3, input = [Fields [''3'', ''4''], Fields [''5'', ''6'', ''B'']]\<rparr> [] = Inr [] \<and>
   loadCsv tie_reversing_sort [Some broken_file, Some bad_then_good]
     = loadCsv tie_reversing_sort [Some [Fields [''1'', ''2'', ''A'']], Some bad_then_good] \<and>
   loadCsv tie_reversing_sort [Some broken_file, Some bad_then_good]
     = Inr [\<lparr>start = 1, end' = 2, country = ''US''\<rparr>, \<lparr>start = 1, end' = 2, country = ''A''\<rparr>]"
proof -
  have a: "Read \<lparr>FieldsPerRecord = 3, input = [Fields [''3'', ''4''], Fields [''5'', ''6'', ''B'']]\<rparr>
     = (Inl ErrFieldCount, \<lparr>FieldsPerRecord = 3, input = [Fields [''5'', ''6'', ''B'']]\<rparr>)"
    by (simp add: Read_def)
  have b: "length [''3'', ''4''] \<noteq> length [''1'', ''2'', ''A'']" by simp
  have c: "loadCsv tie_reversing_sort [Some [Fields [''1'', ''2'', ''A'']], Some bad_then_good]
     = Inr [\<lparr>start = 1, end' = 2, country = ''US''\<rparr>, \<lparr>start = 1, end' = 2, country = ''A''\<rparr>]"
    by (simp add: eval_load bad_then_good_def) (simp add: tie_reversing_sort_def less_start_def)
  from read_error_ends_file [where
      r = "\<lparr>FieldsPerRecord = 3, input = [Fields [''3'', ''4''], Fields [''5'', ''6'', ''B'']]\<rparr>"
      and err = ErrFieldCount
      and r' = "\<lparr>FieldsPerRecord = 3, input = [Fields [''5'', ''6'', ''B'']]\<rparr>"
      and arr = "[]" and ls = "[]" and rest = "[Fields [''5'', ''6'', ''B'']]"
      and fs = "[''3'', ''4'']" and ?f1.0 = "[''1'', ''2'', ''A'']"
      and srt = tie_reversing_sort and files = "[Some bad_then_good]"] a b c
  show ?thesis by (simp add: broken_file_def)
qed

text \<open>
  C10. The fields of a record are read without a check of its length. A row of
  one field that is a number panics at \<^verbatim>\<open>rec[1]\<close>, a row of two fields that
  are numbers at \<^verbatim>\<open>rec[2]\<close>, with an index out of range; as the first row of
  a file it makes \<^verbatim>\<open>loadCsv\<close> panic, whatever follows in the file and whatever
  files follow. A row of two fields whose first is no number is skipped
  instead.
\<close>

theorem short_first_row_faults:
  "(SetString f0 = Some s \<longrightarrow>
      parse_record [f0] = Inl IndexOutOfRange \<and>
      loadCsv srt (Some (Fields [f0] # rest) # files) = Inl IndexOutOfRange) \<and>
   (SetString f0 = Some s \<and> SetString f1 = Some e \<longrightarrow>
      parse_record [f0, f1] = Inl IndexOutOfRange \<and>
      loadCsv srt (Some (Fields [f0, f1] # rest) # files) = Inl IndexOutOfRange) \<and>
   (SetString f0 = None \<longrightarrow> parse_record [f0, f1] = Inr None)"
  by (simp add: parse_record_def index_def loadCsv_def read_loop_step [OF Read_first])

theorem short_first_row_faults_witness:
  "SetString ''1'' = Some 1 \<and> SetString ''2'' = Some 2 \<and> SetString ''x'' = None \<and>
   parse_record [''1'', ''2''] = Inl IndexOutOfRange \<and>
   parse_record [''x'', ''2''] = Inr None \<and>
   loadCsv tie_reversing_sort [Some [Fields [''1'', ''2'']]] = Inl IndexOutOfRange \<and>
   loadCsv tie_reversing_sort [Some (Fields [''1'', ''2''] # bad_then_good), Some broken_file]
     = Inl IndexOutOfRange"
proof -
  have a: "SetString ''1'' = Some 1" "SetString ''2'' = Some 2" "SetString ''x'' = None"
    by (simp_all add: SetString_def digits_def is_digit_def)
  from a
    short_first_row_faults [where ?f0.0 = "''1''" and ?f1.0 = "''2''" and s = 1 and e = 2
      and srt = tie_reversing_sort and rest = "[]" and files = "[]"]
    short_first_row_faults [where ?f0.0 = "''1''" and ?f1.0 = "''2''" and s = 1 and e = 2
      and srt = tie_reversing_sort and rest = bad_then_good and files = "[Some broken_file]"]
    short_first_row_faults [where ?f0.0 = "''x''" and ?f1.0 = "''2''"]
  show ?thesis by simp
qed

end
